theory Spec2Isabelle
  imports Main "HOL-Library.Char_ord" "HOL-Library.List_Lexorder"
    "HOL-Library.Product_Lexorder" "HOL-Library.Multiset"
begin

section \<open>Programme model\<close>

text \<open>
  A programme is the dict built by \<open>build_programs\<close> (src/epg.py, lines 156-168), with
  its eleven keys as fields.  Python strings are modelled as their UTF-8 byte sequences;
  the lexicographic order on byte sequences coincides with Python's code-point order on
  \<open>str\<close>.  The upstream stream id is a scalar: a number or a string.
\<close>

datatype scalar = SInt int | SStr string

record programme =
  channel :: string
  start :: int
  stop :: int
  title :: string
  tag :: "string option"
  category :: "string option"
  poster :: "string option"
  iframe :: "string option"
  viewers :: "int option"
  stream_id :: "scalar option"
  m3u8 :: "string option"

section \<open>Guide builder\<close>

text \<open>
  Decimal rendering of Python's \<open>str\<close> on an \<open>int\<close>, and \<open>str\<close> on the value of
  \<open>s.get('id')\<close>: \<open>None\<close> prints as \<open>None\<close>, a string as itself.
\<close>

fun str_nat :: "nat \<Rightarrow> string" where
  "str_nat n =
     (if n < 10 then [''0123456789'' ! n]
      else str_nat (n div 10) @ [''0123456789'' ! (n mod 10)])"

declare str_nat.simps [simp del]

definition str_int :: "int \<Rightarrow> string" where
  "str_int i = (if i < 0 then CHR ''-'' # str_nat (nat (- i)) else str_nat (nat i))"


definition str_scalar :: "scalar option \<Rightarrow> string" where
  "str_scalar v = (case v of None \<Rightarrow> ''None'' | Some (SInt i) \<Rightarrow> str_int i | Some (SStr t) \<Rightarrow> t)"

text \<open>
  One upstream stream record (a JSON object read with \<open>s.get\<close>): every key may be absent
  or null, which \<open>None\<close> models.  The field types are those of the interface: strings
  for \<open>uri_name\<close>, \<open>poster\<close>, \<open>tag\<close>, \<open>category_name\<close>, \<open>name\<close>, \<open>iframe\<close>,
  integers for \<open>starts_at\<close>, \<open>ends_at\<close>, \<open>viewers\<close>, a scalar for \<open>id\<close>.
\<close>

record stream =
  uri_name :: "string option"
  s_id :: "scalar option"
  s_poster :: "string option"
  s_tag :: "string option"
  category_name :: "string option"
  name :: "string option"
  starts_at :: "int option"
  ends_at :: "int option"
  s_iframe :: "string option"
  s_viewers :: "int option"

record channel_meta =
  display :: string
  icon :: "string option"

text \<open>Python truthiness of an optional string, and \<open>v or d\<close>.\<close>

definition truthy :: "string option \<Rightarrow> bool" where
  "truthy v = (case v of None \<Rightarrow> False | Some t \<Rightarrow> t \<noteq> [])"

definition or_else :: "string option \<Rightarrow> string \<Rightarrow> string" where
  "or_else v d = (case v of None \<Rightarrow> d | Some t \<Rightarrow> if t \<noteq> [] then t else d)"

text \<open>Lines 143-144: \<open>uri = s.get("uri_name") or f"id_{s.get('id')}"\<close>, then \<open>uri.replace("/", "_")\<close>.\<close>

definition chan_id_of :: "stream \<Rightarrow> string" where
  "chan_id_of s =
     map (\<lambda>ch. if ch = CHR ''/'' then CHR ''_'' else ch)
       (or_else (uri_name s) (''id_'' @ str_scalar (s_id s)))"

text \<open>Lines 156-168.\<close>

definition make_prog :: "stream \<Rightarrow> int \<Rightarrow> int \<Rightarrow> programme" where
  "make_prog s st en =
     \<lparr>channel = chan_id_of s, start = st, stop = en,
      title = or_else (name s) (''stream_'' @ str_scalar (s_id s)),
      tag = s_tag s, category = category_name s, poster = s_poster s,
      iframe = s_iframe s, viewers = s_viewers s, stream_id = s_id s, m3u8 = None\<rparr>"

text \<open>
  The body of the inner loop (lines 143-169) on the pair (channels, programmes).  The
  registry is an insertion-ordered dict, kept as an association list.  The channel is
  registered before the timestamps are looked at; \<open>continue\<close> then skips only the
  programme.
\<close>

definition build_step ::
  "(string \<times> channel_meta) list \<times> programme list \<Rightarrow> stream
     \<Rightarrow> (string \<times> channel_meta) list \<times> programme list" where
  "build_step acc s =
     (let channels = fst acc; programmes = snd acc;
          chan_id = chan_id_of s;
          channels' =
            (if chan_id \<notin> set (map fst channels)
             then channels @ [(chan_id,
                    \<lparr>display = or_else (s_tag s) (or_else (category_name s) chan_id),
                     icon = s_poster s\<rparr>)]
             else channels)
      in case (starts_at s, ends_at s) of
           (Some st, Some en) \<Rightarrow> (channels', programmes @ [make_prog s st en])
         | _ \<Rightarrow> (channels', programmes))"

text \<open>
  \<open>build_programs\<close>: the outer loop over categories, the inner over each category's
  streams (an absent \<open>streams\<close> key is the empty list).  The \<open>tz\<close> argument of the source
  is not used by it.
\<close>

definition build_programs ::
  "stream list list \<Rightarrow> (string \<times> channel_meta) list \<times> programme list" where
  "build_programs data = foldl (\<lambda>acc category. foldl build_step acc category) ([], []) data"

text \<open>The test of line 153, negated: the record carries both timestamps.\<close>

definition has_times :: "stream \<Rightarrow> bool" where
  "has_times s \<longleftrightarrow> starts_at s \<noteq> None \<and> ends_at s \<noteq> None"

text \<open>A stream record with every key absent; used for concrete inputs.\<close>

definition empty_stream :: stream where
  "empty_stream = \<lparr>uri_name = None, s_id = None, s_poster = None, s_tag = None,
     category_name = None, name = None, starts_at = None, ends_at = None,
     s_iframe = None, s_viewers = None\<rparr>"

section \<open>Timeline cleaner\<close>

text \<open>
  \<open>by_chan.setdefault(p["channel"], []).append(p)\<close> on an insertion-ordered dict,
  kept as an association list.
\<close>

fun setdefault_append :: "(string \<times> programme list) list \<Rightarrow> programme \<Rightarrow> (string \<times> programme list) list" where
  "setdefault_append [] p = [(channel p, [p])]"
| "setdefault_append ((c, g) # rest) p =
     (if c = channel p then (c, g @ [p]) # rest else (c, g) # setdefault_append rest p)"

definition group_by_chan :: "programme list \<Rightarrow> (string \<times> programme list) list" where
  "group_by_chan programmes = foldl setdefault_append [] programmes"

text \<open>
  The inner loop of \<open>clean_overlaps\<close> (lines 191-215): \<open>cur\<close> is the programme under
  construction (\<open>None\<close> before the first item), \<open>merged\<close> the finalized ones.  Any strategy
  other than \<open>"trim"\<close> takes the merge branch, as the \<open>else\<close> of line 208 does.
\<close>

fun sweep :: "string \<Rightarrow> programme option \<Rightarrow> programme list \<Rightarrow> programme list
    \<Rightarrow> programme list \<times> programme option" where
  "sweep strategy cur merged [] = (merged, cur)"
| "sweep strategy None merged (p # plist) = sweep strategy (Some p) merged plist"
| "sweep strategy (Some cur) merged (p # plist) =
     (if start p < stop cur then
        (if strategy = ''trim'' then
           (if start p \<le> start cur then sweep strategy (Some p) merged plist
            else sweep strategy (Some p) (merged @ [cur\<lparr>stop := start p\<rparr>]) plist)
         else sweep strategy
                (Some (cur\<lparr>stop := max (stop cur) (stop p),
                           title := title cur @ '' / '' @ title p\<rparr>)) merged plist)
      else sweep strategy (Some p) (merged @ [cur]) plist)"

text \<open>One channel: stable sort by start, sweep, then finalize what remains as current.\<close>

definition clean_channel :: "string \<Rightarrow> programme list \<Rightarrow> programme list" where
  "clean_channel strategy plist =
     (case sweep strategy None [] (sort_key start plist) of
        (merged, None) \<Rightarrow> merged
      | (merged, Some cur) \<Rightarrow> merged @ [cur])"

definition sort_field :: "programme \<Rightarrow> string \<times> int" where
  "sort_field x = (channel x, start x)"

definition clean_overlaps :: "programme list \<Rightarrow> string \<Rightarrow> programme list" where
  "clean_overlaps programmes strategy =
     sort_key sort_field
       (concat (map (\<lambda>(chan, plist). clean_channel strategy plist) (group_by_chan programmes)))"

section \<open>Time formatting\<close>

text \<open>
  \<open>xmltv_time\<close> (lines 61-68) rests on the Python standard library, which is not part of
  the repository: \<open>datetime.fromtimestamp\<close>, \<open>astimezone\<close>, \<open>utcoffset\<close>, \<open>strftime\<close> and
  the zone database behind \<open>ZoneInfo\<close>.  The library is modelled as follows.
  \<^item> A time zone is the function giving its UTC offset, in seconds, at each UTC instant
    (what the zone database decides).
  \<^item> The calendar is the proleptic Gregorian one, computed as the library's
    \<open>_ord2ymd\<close> does from the day ordinal (day 1 is 0001-01-01, day 719163 is 1970-01-01).
  \<^item> A \<open>datetime\<close> holds years 1 to 9999 only and an offset strictly between -24h and
    +24h; outside, the library raises.  Which exception it raises (\<open>ValueError\<close>,
    \<open>OverflowError\<close>, or \<open>OSError\<close> beyond the platform's \<open>time_t\<close>) depends on the
    platform and on how far out of range the instant is; the model records only that
    the call raises.
  \<^item> \<open>strftime\<close> hands the format to the C library.  With glibc, \<open>%Y\<close> is the year
    without padding (year 999 prints as \<open>999\<close>); C libraries that pad to four digits
    print the same from year 1000 on.  The other fields are padded to two digits.
\<close>

datatype py_error = Raised

definition days_before_month :: "int list" where
  "days_before_month = [-1, 0, 31, 59, 90, 120, 151, 181, 212, 243, 273, 304, 334]"

definition days_in_month :: "int list" where
  "days_in_month = [-1, 31, 28, 31, 30, 31, 30, 31, 31, 30, 31, 30, 31]"

text \<open>The second half of \<open>_ord2ymd\<close>: month and day from the zero-based day of the year.\<close>

definition month_day :: "bool \<Rightarrow> int \<Rightarrow> int \<times> int" where
  "month_day leapyear n =
     (let m = (n + 50) div 32;
          preceding = days_before_month ! nat m + (if m > 2 \<and> leapyear then 1 else 0)
      in if preceding > n
         then (m - 1,
               n - (preceding - (days_in_month ! nat (m - 1)
                                  + (if m - 1 = 2 \<and> leapyear then 1 else 0))) + 1)
         else (m, n - preceding + 1))"

definition ord2ymd :: "int \<Rightarrow> int \<times> int \<times> int" where
  "ord2ymd ordinal =
     (let n0 = ordinal - 1;
          n400 = n0 div 146097; r400 = n0 mod 146097;
          n100 = r400 div 36524; r100 = r400 mod 36524;
          n4 = r100 div 1461; r4 = r100 mod 1461;
          n1 = r4 div 365; n = r4 mod 365;
          y = n400 * 400 + 1 + n100 * 100 + n4 * 4 + n1
      in if n1 = 4 \<or> n100 = 4 then (y - 1, 12, 31)
         else (y, month_day (n1 = 3 \<and> (n4 \<noteq> 24 \<or> n100 = 3)) n))"

record datetime =
  year :: int
  month :: int
  day :: int
  hour :: int
  minute :: int
  second :: int
  utcoffset :: int

text \<open>The wall clock that lies \<open>off\<close> seconds east of UTC at instant \<open>ts\<close>.\<close>

definition wall_clock :: "int \<Rightarrow> int \<Rightarrow> datetime" where
  "wall_clock ts off =
     (let t = ts + off; sod = t mod 86400;
          ymd = ord2ymd (719163 + t div 86400)
      in \<lparr>year = fst ymd, month = fst (snd ymd), day = snd (snd ymd),
          hour = sod div 3600, minute = (sod mod 3600) div 60, second = sod mod 60,
          utcoffset = off\<rparr>)"

text \<open>
  \<open>dt_from_ts\<close> (lines 58-59): the instant as a UTC datetime, then moved to the zone.
\<close>

definition dt_from_ts :: "int \<Rightarrow> (int \<Rightarrow> int) \<Rightarrow> py_error + datetime" where
  "dt_from_ts ts tz =
     (if year (wall_clock ts 0) < 1 \<or> 9999 < year (wall_clock ts 0) then Inl Raised
      else if tz ts \<le> - 86400 \<or> 86400 \<le> tz ts then Inl Raised
      else if year (wall_clock ts (tz ts)) < 1 \<or> 9999 < year (wall_clock ts (tz ts))
        then Inl Raised
      else Inr (wall_clock ts (tz ts)))"

text \<open>
  Python's zero-padded decimal format \<open>{i:0wd}\<close>: width \<open>w\<close> counts a minus sign, and the
  zeros go after it.
\<close>

definition fmt0d :: "nat \<Rightarrow> int \<Rightarrow> string" where
  "fmt0d w i =
     (if i < 0 then CHR ''-'' # replicate (w - 1 - length (str_nat (nat (- i)))) CHR ''0''
                      @ str_nat (nat (- i))
      else replicate (w - length (str_nat (nat i))) CHR ''0'' @ str_nat (nat i))"

definition strftime_YmdHMS :: "datetime \<Rightarrow> string" where
  "strftime_YmdHMS dt =
     str_int (year dt) @ fmt0d 2 (month dt) @ fmt0d 2 (day dt)
     @ fmt0d 2 (hour dt) @ fmt0d 2 (minute dt) @ fmt0d 2 (second dt)"

text \<open>
  \<open>xmltv_time\<close> (lines 61-68).  \<open>off.total_seconds() // 60\<close> is floor division of the
  offset's seconds; \<open>dt.utcoffset() or timedelta(0)\<close> leaves an integer offset as it is.
\<close>

definition xmltv_time :: "int \<Rightarrow> (int \<Rightarrow> int) \<Rightarrow> py_error + string" where
  "xmltv_time ts tz =
     (case dt_from_ts ts tz of
        Inl e \<Rightarrow> Inl e
      | Inr dt \<Rightarrow>
          let off = utcoffset dt;
              minutes = off div 60;
              sign = (if minutes \<ge> 0 then CHR ''+'' else CHR ''-'');
              hh = \<bar>minutes\<bar> div 60;
              mm = \<bar>minutes\<bar> mod 60
          in Inr (strftime_YmdHMS dt @ '' '' @ [sign] @ fmt0d 2 hh @ fmt0d 2 mm))"

text \<open>A zone whose offset never changes, such as UTC (0) or Asia/Manila today (28800).\<close>

definition fixed_zone :: "int \<Rightarrow> int \<Rightarrow> int" where
  "fixed_zone off ts = off"


section \<open>The cleaner on an object store\<close>

text \<open>
  Whether \<open>clean_overlaps\<close> writes to its input depends on which dict each name refers
  to.  For that question the programme dicts are objects in a store, addressed by their
  index; a list of programmes is a list of references, and two entries may refer to the
  same object.  \<open>p.copy()\<close> allocates a new object at the end of the store, and an
  item assignment \<open>cur[k] = v\<close> updates the object \<open>cur\<close> refers to.
\<close>

type_synonym store = "programme list"
type_synonym ref = nat

definition copy_obj :: "store \<Rightarrow> ref \<Rightarrow> store \<times> ref" where
  "copy_obj h p = (h @ [h ! p], length h)"

fun setdefault_append_refs ::
  "store \<Rightarrow> (string \<times> ref list) list \<Rightarrow> ref \<Rightarrow> (string \<times> ref list) list" where
  "setdefault_append_refs h [] p = [(channel (h ! p), [p])]"
| "setdefault_append_refs h ((c, g) # rest) p =
     (if c = channel (h ! p) then (c, g @ [p]) # rest
      else (c, g) # setdefault_append_refs h rest p)"

definition group_by_chan_refs :: "store \<Rightarrow> ref list \<Rightarrow> (string \<times> ref list) list" where
  "group_by_chan_refs h programmes = foldl (setdefault_append_refs h) [] programmes"

text \<open>Lines 191-215 with the store threaded through; the result is the final store too.\<close>

fun sweep_refs :: "string \<Rightarrow> store \<Rightarrow> ref option \<Rightarrow> ref list \<Rightarrow> ref list
    \<Rightarrow> store \<times> ref list \<times> ref option" where
  "sweep_refs strategy h cur merged [] = (h, merged, cur)"
| "sweep_refs strategy h None merged (p # plist) =
     sweep_refs strategy (fst (copy_obj h p)) (Some (snd (copy_obj h p))) merged plist"
| "sweep_refs strategy h (Some cur) merged (p # plist) =
     (if start (h ! p) < stop (h ! cur) then
        (if strategy = ''trim'' then
           (if start (h ! p) \<le> start (h ! cur)
            then sweep_refs strategy (fst (copy_obj h p)) (Some (snd (copy_obj h p))) merged plist
            else sweep_refs strategy
                   (fst (copy_obj (h[cur := (h ! cur)\<lparr>stop := start (h ! p)\<rparr>]) p))
                   (Some (snd (copy_obj (h[cur := (h ! cur)\<lparr>stop := start (h ! p)\<rparr>]) p)))
                   (merged @ [cur]) plist)
         else sweep_refs strategy
                ((h[cur := (h ! cur)\<lparr>stop := max (stop (h ! cur)) (stop (h ! p))\<rparr>])
                   [cur := ((h[cur := (h ! cur)\<lparr>stop := max (stop (h ! cur)) (stop (h ! p))\<rparr>]) ! cur)
                      \<lparr>title :=
                         title ((h[cur := (h ! cur)\<lparr>stop := max (stop (h ! cur)) (stop (h ! p))\<rparr>]) ! cur)
                         @ '' / ''
                         @ title ((h[cur := (h ! cur)\<lparr>stop := max (stop (h ! cur)) (stop (h ! p))\<rparr>]) ! p)\<rparr>])
                (Some cur) merged plist)
      else sweep_refs strategy (fst (copy_obj h p)) (Some (snd (copy_obj h p)))
             (merged @ [cur]) plist)"

definition clean_channel_refs :: "string \<Rightarrow> store \<Rightarrow> ref list \<Rightarrow> store \<times> ref list" where
  "clean_channel_refs strategy h plist =
     (case sweep_refs strategy h None [] (sort_key (\<lambda>x. start (h ! x)) plist) of
        (h', merged, None) \<Rightarrow> (h', merged)
      | (h', merged, Some cur) \<Rightarrow> (h', merged @ [cur]))"

text \<open>The loop over \<open>by_chan.items()\<close> (lines 187-218), extending \<open>cleaned\<close>.\<close>

fun clean_groups_refs ::
  "string \<Rightarrow> store \<Rightarrow> ref list \<Rightarrow> (string \<times> ref list) list \<Rightarrow> store \<times> ref list" where
  "clean_groups_refs strategy h cleaned [] = (h, cleaned)"
| "clean_groups_refs strategy h cleaned ((chan, plist) # rest) =
     clean_groups_refs strategy (fst (clean_channel_refs strategy h plist))
       (cleaned @ snd (clean_channel_refs strategy h plist)) rest"

definition clean_overlaps_refs :: "store \<Rightarrow> ref list \<Rightarrow> string \<Rightarrow> store \<times> ref list" where
  "clean_overlaps_refs h programmes strategy =
     (let r = clean_groups_refs strategy h [] (group_by_chan_refs h programmes)
      in (fst r, sort_key (\<lambda>x. sort_field (fst r ! x)) (snd r)))"

section \<open>XMLTV emitter\<close>

text \<open>
  An \<open>ElementTree\<close> element: tag, attributes in insertion order, text (\<open>None\<close> until
  assigned) and children.
\<close>

datatype xml = Element (xtag: string) (attrib: "(string \<times> string) list")
  (xtext: "string option") (children: "xml list")

text \<open>\<open>safe_text\<close> (line 55) on an optional string and on the optional stream id.\<close>

definition safe_text :: "string option \<Rightarrow> string" where
  "safe_text v = (case v of None \<Rightarrow> [] | Some t \<Rightarrow> t)"

definition safe_text_id :: "scalar option \<Rightarrow> string" where
  "safe_text_id v = (case v of None \<Rightarrow> [] | Some x \<Rightarrow> str_scalar (Some x))"

text \<open>\<open>sep.join(parts)\<close>.\<close>

fun join :: "string \<Rightarrow> string list \<Rightarrow> string" where
  "join sep [] = []"
| "join sep [x] = x"
| "join sep (x # y # ys) = x @ sep @ join sep (y # ys)"

text \<open>
  The separator literal of line 276, as the UTF-8 bytes the source file holds between
  the two spaces: \<open>C3 A2\<close>, \<open>E2 82 AC\<close>, \<open>E2 80 9D\<close>, i.e. the three characters U+00E2,
  U+20AC, U+201D.  The em-dash U+2014 is the bytes \<open>E2 80 94\<close>.
\<close>

definition desc_separator :: string where
  "desc_separator =
     [CHR '' '', CHR 0xC3, CHR 0xA2, CHR 0xE2, CHR 0x82, CHR 0xAC, CHR 0xE2, CHR 0x80, CHR 0x9D,
      CHR '' '']"

definition em_dash_separator :: string where
  "em_dash_separator = [CHR '' '', CHR 0xE2, CHR 0x80, CHR 0x94, CHR '' '']"

text \<open>Lines 267-275: the description parts, in the order they are appended.\<close>

definition desc_parts :: "programme \<Rightarrow> string list" where
  "desc_parts p =
     (if truthy (iframe p) then [''embed='' @ the (iframe p)] else [])
     @ (case viewers p of None \<Rightarrow> [] | Some v \<Rightarrow> [''viewers='' @ str_int v])
     @ (if truthy (poster p) then [''poster='' @ the (poster p)] else [])
     @ (if truthy (m3u8 p) then [''hls='' @ the (m3u8 p)] else [])"

text \<open>Lines 244-286: the children of one programme element, in the order they are added.\<close>

definition programme_children :: "programme \<Rightarrow> xml list" where
  "programme_children p =
     [Element ''title'' [(''lang'', ''en'')] (Some (safe_text (Some (title p)))) []]
     @ (if truthy (tag p)
        then [Element ''sub-title'' [(''lang'', ''en'')] (Some (safe_text (tag p))) []] else [])
     @ (if truthy (category p)
        then [Element ''category'' [(''lang'', ''en'')] (Some (safe_text (category p))) []] else [])
     @ [Element ''episode-num'' [(''system'', ''urn:stream-id'')]
          (Some (safe_text_id (stream_id p))) []]
     @ [Element ''length'' [(''units'', ''minutes'')]
          (Some (str_int (max 0 ((stop p - start p) div 60)))) []]
     @ [Element ''desc'' [(''lang'', ''en'')] (Some (join desc_separator (desc_parts p))) []]
     @ (if truthy (poster p) then [Element ''icon'' [(''src'', the (poster p))] None []] else [])
     @ (if truthy (m3u8 p) then [Element ''url'' [] (Some (the (m3u8 p))) []] else [])"

text \<open>Lines 240-243: the programme element; it exists only if both times format.\<close>

definition programme_element :: "(int \<Rightarrow> int) \<Rightarrow> programme \<Rightarrow> py_error + xml" where
  "programme_element tz p =
     (case xmltv_time (start p) tz of
        Inl e \<Rightarrow> Inl e
      | Inr t1 \<Rightarrow>
          (case xmltv_time (stop p) tz of
             Inl e \<Rightarrow> Inl e
           | Inr t2 \<Rightarrow>
               Inr (Element ''programme''
                      [(''start'', t1), (''stop'', t2), (''channel'', channel p)] None
                      (programme_children p))))"

text \<open>Lines 230-236: one channel element per registry entry.\<close>

definition channel_element :: "string \<times> channel_meta \<Rightarrow> xml" where
  "channel_element cm =
     Element ''channel'' [(''id'', fst cm)] None
       ([Element ''display-name'' [] (Some (safe_text (Some (display (snd cm))))) []]
        @ (if truthy (icon (snd cm))
           then [Element ''icon'' [(''src'', the (icon (snd cm)))] None []] else []))"

text \<open>The programme loop of lines 239-286: it stops at the first element that raises.\<close>

fun programme_elements :: "(int \<Rightarrow> int) \<Rightarrow> programme list \<Rightarrow> py_error + xml list" where
  "programme_elements tz [] = Inr []"
| "programme_elements tz (p # ps) =
     (case programme_element tz p of
        Inl e \<Rightarrow> Inl e
      | Inr x \<Rightarrow> (case programme_elements tz ps of Inl e \<Rightarrow> Inl e | Inr xs \<Rightarrow> Inr (x # xs)))"

definition generate_xmltv ::
  "(string \<times> channel_meta) list \<Rightarrow> programme list \<Rightarrow> (int \<Rightarrow> int) \<Rightarrow> py_error + xml" where
  "generate_xmltv channels programmes tz =
     (case programme_elements tz (sort_key sort_field programmes) of
        Inl e \<Rightarrow> Inl e
      | Inr prs \<Rightarrow>
          Inr (Element ''tv''
                 [(''source-info-name'', ''ppv.to''), (''generator-info-name'', ''ppv_epg.py'')]
                 None (map channel_element channels @ prs)))"

text \<open>
  The description text as the specification words it: the present items among embed
  URL, viewer count, poster URL and playable-stream URL, in that order, each as
  \<open>key=value\<close>, joined by \<open>sep\<close>.  A URL is present when it is a non-empty string, the
  viewer count when it is not \<open>None\<close>.
\<close>

definition present_url :: "string option \<Rightarrow> string option" where
  "present_url v = (case v of None \<Rightarrow> None | Some t \<Rightarrow> if t = [] then None else Some t)"

definition spec_desc_text :: "string \<Rightarrow> programme \<Rightarrow> string" where
  "spec_desc_text sep p =
     join sep
       (concat (map (\<lambda>kv. case snd kv of None \<Rightarrow> [] | Some v \<Rightarrow> [fst kv @ ''='' @ v])
          [(''embed'', present_url (iframe p)),
           (''viewers'', map_option str_int (viewers p)),
           (''poster'', present_url (poster p)),
           (''hls'', present_url (m3u8 p))]))"

section \<open>Notions used to state the cleaner's properties\<close>

text \<open>
  The cleaner's own overlap test (line 195) along a list: each programme starts at or after
  the stop of the one before it.
\<close>

fun adjacent_disjoint :: "programme list \<Rightarrow> bool" where
  "adjacent_disjoint (a # b # ps) = (stop a \<le> start b \<and> adjacent_disjoint (b # ps))"
| "adjacent_disjoint ps = True"

text \<open>
  An input is free of overlaps in the cleaner's sense when every channel's programmes,
  taken in start order (equal starts in input order), pass the test above.
\<close>

definition no_overlap_input :: "programme list \<Rightarrow> bool" where
  "no_overlap_input programmes \<longleftrightarrow>
     (\<forall>c \<in> set (map channel programmes).
        adjacent_disjoint (sort_key start (filter (\<lambda>x. channel x = c) programmes)))"

text \<open>
  The glossary's overlap: the half-open ranges \<open>[start, stop)\<close> of two programmes
  intersect.  \<open>ranges_disjoint\<close> says that no two list entries of one channel do.
\<close>

definition ranges_overlap :: "programme \<Rightarrow> programme \<Rightarrow> bool" where
  "ranges_overlap a b \<longleftrightarrow> max (start a) (start b) < min (stop a) (stop b)"

fun ranges_disjoint :: "programme list \<Rightarrow> bool" where
  "ranges_disjoint [] = True"
| "ranges_disjoint (a # ps) =
     ((\<forall>b \<in> set ps. channel a = channel b \<longrightarrow> \<not> ranges_overlap a b) \<and> ranges_disjoint ps)"

text \<open>Two programmes keep apart: they are on different channels or their ranges are disjoint.\<close>

definition apart :: "programme \<Rightarrow> programme \<Rightarrow> bool" where
  "apart a b \<longleftrightarrow> (channel a = channel b \<longrightarrow> \<not> ranges_overlap a b)"

text \<open>A programme with only the four fields the cleaner reads; used for concrete inputs.\<close>

definition bare :: "string \<Rightarrow> int \<Rightarrow> int \<Rightarrow> string \<Rightarrow> programme" where
  "bare c s e t = \<lparr>channel = c, start = s, stop = e, title = t, tag = None, category = None,
     poster = None, iframe = None, viewers = None, stream_id = None, m3u8 = None\<rparr>"

section \<open>The cleaner: grouping by channel\<close>

lemma map_of_setdefault_append:
  "map_of (setdefault_append acc p) =
     (map_of acc)(channel p \<mapsto> (case map_of acc (channel p) of None \<Rightarrow> [p] | Some g \<Rightarrow> g @ [p]))"
  by (induction acc p rule: setdefault_append.induct) (auto simp: fun_eq_iff)

lemma keys_setdefault_append:
  "map fst (setdefault_append acc p) =
     (if channel p \<in> set (map fst acc) then map fst acc else map fst acc @ [channel p])"
  by (induction acc p rule: setdefault_append.induct) auto

lemma group_by_chan_snoc:
  "group_by_chan (ps @ [p]) = setdefault_append (group_by_chan ps) p"
  by (simp add: group_by_chan_def)

lemma distinct_group_keys: "distinct (map fst (group_by_chan ps))"
proof (induction ps rule: rev_induct)
  case Nil
  show ?case by (simp add: group_by_chan_def)
next
  case (snoc p ps)
  then show ?case by (simp add: group_by_chan_snoc keys_setdefault_append)
qed

lemma map_of_group_by_chan:
  "map_of (group_by_chan ps) c =
     (if c \<in> channel ` set ps then Some (filter (\<lambda>x. channel x = c) ps) else None)"
proof (induction ps rule: rev_induct)
  case Nil
  show ?case by (simp add: group_by_chan_def)
next
  case (snoc p ps)
  show ?case
  proof (cases "channel p = c")
    case False
    then show ?thesis
      using snoc by (auto simp: group_by_chan_snoc map_of_setdefault_append)
  next
    case True
    show ?thesis
    proof (cases "c \<in> channel ` set ps")
      case True
      then show ?thesis
        using snoc \<open>channel p = c\<close>
        by (simp add: group_by_chan_snoc map_of_setdefault_append)
    next
      case False
      then have "filter (\<lambda>x. channel x = c) ps = []"
        by (auto simp: filter_empty_conv)
      then show ?thesis
        using snoc False \<open>channel p = c\<close>
        by (simp add: group_by_chan_snoc map_of_setdefault_append)
    qed
  qed
qed

lemma filter_concat_groups:
  assumes "distinct (map fst gs)"
    and "\<And>k g x. (k, g) \<in> set gs \<Longrightarrow> x \<in> set (f g) \<Longrightarrow> channel x = k"
  shows "filter (\<lambda>x. channel x = c) (concat (map (\<lambda>(k, g). f g) gs)) =
           (case map_of gs c of None \<Rightarrow> [] | Some g \<Rightarrow> f g)"
  using assms
proof (induction gs)
  case Nil
  show ?case by simp
next
  case (Cons kg gs)
  obtain k g where kg: "kg = (k, g)" by (cases kg)
  have own: "\<And>x. x \<in> set (f g) \<Longrightarrow> channel x = k"
    using Cons.prems(2) [of k g] kg by simp
  have IH: "filter (\<lambda>x. channel x = c) (concat (map (\<lambda>(k, g). f g) gs)) =
           (case map_of gs c of None \<Rightarrow> [] | Some g \<Rightarrow> f g)"
  proof (rule Cons.IH)
    show "distinct (map fst gs)" using Cons.prems(1) by simp
    show "\<And>k g x. (k, g) \<in> set gs \<Longrightarrow> x \<in> set (f g) \<Longrightarrow> channel x = k"
      using Cons.prems(2) by auto
  qed
  show ?case
  proof (cases "k = c")
    case True
    then have "map_of gs c = None"
      using Cons.prems(1) kg by (simp add: map_of_eq_None_iff)
    moreover have "filter (\<lambda>x. channel x = c) (f g) = f g"
      using own True by (simp add: filter_id_conv)
    ultimately show ?thesis using IH kg True by simp
  next
    case False
    then have "filter (\<lambda>x. channel x = c) (f g) = []"
      using own by (auto simp: filter_empty_conv)
    then show ?thesis using IH kg False by simp
  qed
qed

section \<open>The cleaner: the sweep over one channel\<close>

lemma sweep_channel:
  "sweep s cur merged plist = (m', c') \<Longrightarrow>
   \<forall>x \<in> set merged \<union> set_option cur \<union> set plist. channel x = k \<Longrightarrow>
   \<forall>x \<in> set m' \<union> set_option c'. channel x = k"
proof (induction plist arbitrary: cur merged)
  case Nil
  then show ?case by auto
next
  case (Cons p plist)
  have kp: "channel p = k" and kl: "\<forall>x \<in> set plist. channel x = k"
    and km: "\<forall>x \<in> set merged. channel x = k"
    using Cons.prems(2) by auto
  show ?case
  proof (cases cur)
    case None
    then have run: "sweep s (Some p) merged plist = (m', c')"
      using Cons.prems(1) by simp
    show ?thesis
      by (rule Cons.IH [OF run]) (use kp kl km in auto)
  next
    case (Some c)
    then have kc: "channel c = k" using Cons.prems(2) by simp
    consider (keep) "sweep s (Some p) (merged @ [c]) plist = (m', c')"
      | (drop) "sweep s (Some p) merged plist = (m', c')"
      | (trim) "sweep s (Some p) (merged @ [c\<lparr>stop := start p\<rparr>]) plist = (m', c')"
      | (merge) "sweep s (Some (c\<lparr>stop := max (stop c) (stop p),
                     title := title c @ '' / '' @ title p\<rparr>)) merged plist = (m', c')"
      using Cons.prems(1) Some by (simp split: if_splits)
    then show ?thesis
    proof cases
      case keep
      show ?thesis by (rule Cons.IH [OF keep]) (use kp kl km kc in auto)
    next
      case drop
      show ?thesis by (rule Cons.IH [OF drop]) (use kp kl km kc in auto)
    next
      case trim
      show ?thesis by (rule Cons.IH [OF trim]) (use kp kl km kc in auto)
    next
      case merge
      show ?thesis by (rule Cons.IH [OF merge]) (use kp kl km kc in auto)
    qed
  qed
qed

lemma sweep_Some_current:
  "sweep s (Some cur) merged plist = (m', c') \<Longrightarrow> c' \<noteq> None"
proof (induction plist arbitrary: cur merged)
  case Nil
  then show ?case by auto
next
  case (Cons p plist)
  show ?case
    using Cons.prems Cons.IH by (simp split: if_splits)
qed

lemma sweep_separated:
  "sweep s (Some cur) merged plist = (m', c') \<Longrightarrow>
   sorted (map start plist) \<Longrightarrow>
   \<forall>p \<in> set plist. start cur \<le> start p \<Longrightarrow>
   sorted_wrt (\<lambda>a b. start a \<le> start b \<and> stop a \<le> start b) merged \<Longrightarrow>
   \<forall>a \<in> set merged. start a \<le> start cur \<and> stop a \<le> start cur \<Longrightarrow>
   \<exists>c. c' = Some c \<and> sorted_wrt (\<lambda>a b. start a \<le> start b \<and> stop a \<le> start b) (m' @ [c])"
proof (induction plist arbitrary: cur merged)
  case Nil
  then show ?case by (auto simp: sorted_wrt_append)
next
  case (Cons p plist)
  have sp: "sorted (map start plist)" and lo: "start cur \<le> start p"
    and nx: "\<forall>q \<in> set plist. start p \<le> start q"
    using Cons.prems(2,3) by auto
  have old: "\<forall>a \<in> set merged. start a \<le> start p \<and> stop a \<le> start p"
    using Cons.prems(5) lo by auto
  show ?case
  proof (cases "start p < stop cur")
    case False
    then have run: "sweep s (Some p) (merged @ [cur]) plist = (m', c')"
      using Cons.prems(1) by simp
    show ?thesis
      by (rule Cons.IH [OF run sp nx])
         (use Cons.prems(4,5) old lo False in \<open>auto simp: sorted_wrt_append\<close>)
  next
    case ov: True
    show ?thesis
    proof (cases "s = ''trim''")
      case False
      let ?cur = "cur\<lparr>stop := max (stop cur) (stop p), title := title cur @ '' / '' @ title p\<rparr>"
      have run: "sweep s (Some ?cur) merged plist = (m', c')"
        using Cons.prems(1) ov False by simp
      show ?thesis
        by (rule Cons.IH [OF run sp])
           (use Cons.prems(3,4,5) in \<open>auto\<close>)
    next
      case tr: True
      show ?thesis
      proof (cases "start p \<le> start cur")
        case True
        then have run: "sweep s (Some p) merged plist = (m', c')"
          using Cons.prems(1) ov tr by simp
        show ?thesis
          by (rule Cons.IH [OF run sp nx]) (use Cons.prems(4) old in \<open>auto\<close>)
      next
        case False
        then have run: "sweep s (Some p) (merged @ [cur\<lparr>stop := start p\<rparr>]) plist = (m', c')"
          using Cons.prems(1) ov tr by simp
        show ?thesis
          by (rule Cons.IH [OF run sp nx])
             (use Cons.prems(4,5) old lo in \<open>auto simp: sorted_wrt_append\<close>)
      qed
    qed
  qed
qed

lemma sweep_disjoint_input:
  "adjacent_disjoint (cur # plist) \<Longrightarrow>
   sweep s (Some cur) merged plist = (merged @ butlast (cur # plist), Some (last (cur # plist)))"
proof (induction plist arbitrary: cur merged)
  case Nil
  show ?case by simp
next
  case (Cons p plist)
  then show ?case by simp
qed

lemma clean_channel_Nil: "clean_channel s [] = []"
  by (simp add: clean_channel_def)

lemma clean_channel_Cons_sweep:
  assumes "sort_key start g = p # plist"
  shows "\<exists>m c. sweep s (Some p) [] plist = (m, Some c) \<and> clean_channel s g = m @ [c]"
proof -
  obtain m c' where run: "sweep s (Some p) [] plist = (m, c')"
    by (cases "sweep s (Some p) [] plist")
  then obtain c where "c' = Some c"
    using sweep_Some_current [OF run] by (cases c') auto
  then show ?thesis
    using run assms by (simp add: clean_channel_def)
qed

lemma clean_channel_nonempty: "g \<noteq> [] \<Longrightarrow> clean_channel s g \<noteq> []"
proof -
  assume "g \<noteq> []"
  then have "sort_key start g \<noteq> []"
    by (metis length_sort length_0_conv)
  then obtain p plist where "sort_key start g = p # plist"
    by (cases "sort_key start g") auto
  from clean_channel_Cons_sweep [OF this, of s] show ?thesis by auto
qed

lemma clean_channel_channel:
  assumes "\<forall>x \<in> set g. channel x = k"
  shows "\<forall>x \<in> set (clean_channel s g). channel x = k"
proof (cases "sort_key start g")
  case Nil
  then have "g = []" by (metis length_sort length_0_conv)
  then show ?thesis by (simp add: clean_channel_Nil)
next
  case (Cons p plist)
  obtain m c where run: "sweep s (Some p) [] plist = (m, Some c)"
    and out: "clean_channel s g = m @ [c]"
    using clean_channel_Cons_sweep [OF Cons, of s] by auto
  have "set (p # plist) = set g"
    using Cons by (metis set_sort)
  then have "\<forall>x \<in> set [] \<union> set_option (Some p) \<union> set plist. channel x = k"
    using assms by auto
  from sweep_channel [OF run this] show ?thesis
    using out by auto
qed

lemma clean_channel_separated:
  "sorted_wrt (\<lambda>a b. start a \<le> start b \<and> stop a \<le> start b) (clean_channel s g)"
proof (cases "sort_key start g")
  case Nil
  then have "g = []" by (metis length_sort length_0_conv)
  then show ?thesis by (simp add: clean_channel_Nil)
next
  case (Cons p plist)
  obtain m c where run: "sweep s (Some p) [] plist = (m, Some c)"
    and out: "clean_channel s g = m @ [c]"
    using clean_channel_Cons_sweep [OF Cons, of s] by auto
  have "sorted (map start (p # plist))"
    using Cons by (metis sorted_sort_key)
  then have sp: "sorted (map start plist)" and lo: "\<forall>q \<in> set plist. start p \<le> start q"
    by auto
  from sweep_separated [OF run sp lo] show ?thesis
    using out by auto
qed

lemma clean_channel_disjoint:
  assumes "adjacent_disjoint (sort_key start g)"
  shows "clean_channel s g = sort_key start g"
proof (cases "sort_key start g")
  case Nil
  then have "g = []" by (metis length_sort length_0_conv)
  then show ?thesis by (simp add: clean_channel_Nil)
next
  case (Cons p plist)
  have "sweep s (Some p) [] plist = ([] @ butlast (p # plist), Some (last (p # plist)))"
    by (rule sweep_disjoint_input) (use assms Cons in simp)
  then have "clean_channel s g = butlast (p # plist) @ [last (p # plist)]"
    using Cons by (simp add: clean_channel_def)
  then show ?thesis using Cons by simp
qed

lemma cleaned_slice:
  "filter (\<lambda>x. channel x = c)
     (concat (map (\<lambda>(chan, plist). clean_channel s plist) (group_by_chan ps))) =
   clean_channel s (filter (\<lambda>x. channel x = c) ps)"
proof -
  have own: "\<And>k g x. (k, g) \<in> set (group_by_chan ps) \<Longrightarrow> x \<in> set (clean_channel s g)
      \<Longrightarrow> channel x = k"
  proof -
    fix k g x
    assume kg: "(k, g) \<in> set (group_by_chan ps)" and x: "x \<in> set (clean_channel s g)"
    have "map_of (group_by_chan ps) k = Some g"
      using kg distinct_group_keys by (simp add: map_of_eq_Some_iff)
    then have "g = filter (\<lambda>x. channel x = k) ps"
      by (simp add: map_of_group_by_chan split: if_splits)
    then have "\<forall>x \<in> set g. channel x = k" by simp
    from clean_channel_channel [OF this, of s] x show "channel x = k" by simp
  qed
  have "filter (\<lambda>x. channel x = c)
     (concat (map (\<lambda>(chan, plist). clean_channel s plist) (group_by_chan ps))) =
     (case map_of (group_by_chan ps) c of None \<Rightarrow> [] | Some g \<Rightarrow> clean_channel s g)"
    by (rule filter_concat_groups [OF distinct_group_keys own])
  also have "\<dots> = clean_channel s (filter (\<lambda>x. channel x = c) ps)"
  proof (cases "c \<in> channel ` set ps")
    case True
    then show ?thesis by (simp add: map_of_group_by_chan)
  next
    case False
    then have "filter (\<lambda>x. channel x = c) ps = []"
      by (auto simp: filter_empty_conv)
    then show ?thesis using False by (simp add: map_of_group_by_chan clean_channel_Nil)
  qed
  finally show ?thesis .
qed

lemma sorted_sort_field:
  assumes "\<forall>x \<in> set xs. channel x = c" and "sorted (map start xs)"
  shows "sorted (map sort_field xs)"
  using assms
  by (induction xs) (auto simp: sort_field_def)

lemma channel_slice:
  "filter (\<lambda>x. channel x = c) (clean_overlaps ps s) =
   clean_channel s (filter (\<lambda>x. channel x = c) ps)"
proof -
  let ?g = "filter (\<lambda>x. channel x = c) ps"
  have ch: "\<forall>x \<in> set (clean_channel s ?g). channel x = c"
    by (rule clean_channel_channel) simp
  have "sorted_wrt (\<lambda>a b. start a \<le> start b) (clean_channel s ?g)"
    by (rule sorted_wrt_mono_rel [OF _ clean_channel_separated]) simp
  then have "sorted (map start (clean_channel s ?g))"
    by (simp only: sorted_map)
  with ch have srt: "sorted (map sort_field (clean_channel s ?g))"
    by (rule sorted_sort_field)
  have "filter (\<lambda>x. channel x = c) (clean_overlaps ps s) =
      sort_key sort_field (clean_channel s ?g)"
    unfolding clean_overlaps_def filter_sort cleaned_slice ..
  also have "\<dots> = clean_channel s ?g"
    using srt by (rule sort_key_id_if_sorted)
  finally show ?thesis .
qed

section \<open>The guide builder: channels and programmes\<close>

lemma foldl_build_step_channels:
  "set (map fst (fst (foldl build_step acc ss))) = set (map fst (fst acc)) \<union> chan_id_of ` set ss"
  by (induction ss arbitrary: acc) (auto simp: build_step_def Let_def split: option.splits)

lemma foldl_build_step_distinct:
  "distinct (map fst (fst acc)) \<Longrightarrow> distinct (map fst (fst (foldl build_step acc ss)))"
  by (induction ss arbitrary: acc) (auto simp: build_step_def Let_def split: option.splits)

lemma foldl_build_step_programmes:
  "channel ` set (snd (foldl build_step acc ss)) =
     channel ` set (snd acc) \<union> chan_id_of ` set (filter has_times ss)"
  by (induction ss arbitrary: acc)
     (auto simp: build_step_def Let_def make_prog_def has_times_def split: option.splits)

lemma build_programs_concat:
  "foldl (\<lambda>acc category. foldl build_step acc category) acc data =
     foldl build_step acc (concat data)"
  by (induction data arbitrary: acc) simp_all

text \<open>
  Claim C3, as amended.  For every upstream input, the registry's channel ids are distinct
  and are exactly the derived channel ids of the input's stream records, and the channel
  ids referenced by the returned programmes are exactly the derived ids of the records
  that carry both \<open>starts_at\<close> and \<open>ends_at\<close>.  So every programme references a registered
  channel, and a registered channel is referenced by a programme exactly when one of the
  records deriving it has both timestamps.
\<close>

theorem build_programs_channels:
  "distinct (map fst (fst (build_programs data)))
   \<and> fst ` set (fst (build_programs data)) = chan_id_of ` set (concat data)
   \<and> channel ` set (snd (build_programs data)) =
       chan_id_of ` set (filter has_times (concat data))"
proof -
  have "distinct (map fst (fst (build_programs data)))"
    unfolding build_programs_def build_programs_concat
    by (rule foldl_build_step_distinct) simp
  moreover have "fst ` set (fst (build_programs data)) = chan_id_of ` set (concat data)"
    using foldl_build_step_channels [of "([], [])" "concat data"]
    unfolding build_programs_def build_programs_concat by simp
  moreover have "channel ` set (snd (build_programs data)) =
       chan_id_of ` set (filter has_times (concat data))"
    using foldl_build_step_programmes [of "([], [])" "concat data"]
    unfolding build_programs_def build_programs_concat by simp
  ultimately show ?thesis by simp
qed

text \<open>
  The claim as stated fails on a record without timestamps: its channel is registered,
  and no programme references it.
\<close>

theorem channel_without_programme_counterexample:
  "build_programs [[empty_stream\<lparr>uri_name := Some ''a''\<rparr>]] =
     ([(''a'', \<lparr>display = ''a'', icon = None\<rparr>)], [])
   \<and> ''a'' \<in> fst ` set (fst (build_programs [[empty_stream\<lparr>uri_name := Some ''a''\<rparr>]]))
   \<and> ''a'' \<notin> channel ` set (snd (build_programs [[empty_stream\<lparr>uri_name := Some ''a''\<rparr>]]))"
  by (simp add: build_programs_def build_step_def chan_id_of_def or_else_def empty_stream_def
      Let_def)

section \<open>The emitter: decimal rendering, description and length\<close>







lemma str_nat_nonempty: "str_nat n \<noteq> []"
  by (subst str_nat.simps) simp





lemma desc_text_refines:
  "join sep (desc_parts p) = spec_desc_text sep p"
  by (cases "iframe p"; cases "viewers p"; cases "poster p"; cases "m3u8 p")
     (simp_all add: desc_parts_def spec_desc_text_def truthy_def present_url_def)

lemma desc_child:
  "filter (\<lambda>e. xtag e = ''desc'') (programme_children p) =
     [Element ''desc'' [(''lang'', ''en'')] (Some (join desc_separator (desc_parts p))) []]"
  by (simp add: programme_children_def)


text \<open>
  Claim C7.  The description child's text at a programme with an embed URL and a viewer
  count: the two items are rendered as \<open>key=value\<close> in the fixed order, but the bytes
  between them are the source's separator literal (U+00E2 U+20AC U+201D between two
  spaces), not space, em-dash, space; so the text differs from the specified one.
\<close>

theorem desc_separator_is_not_em_dash:
  "filter (\<lambda>e. xtag e = ''desc'')
     (programme_children ((bare ''c'' 0 60 ''T'')\<lparr>iframe := Some ''http://e'', viewers := Some 5\<rparr>)) =
     [Element ''desc'' [(''lang'', ''en'')]
        (Some (''embed=http://e'' @ desc_separator @ ''viewers=5'')) []]
   \<and> spec_desc_text em_dash_separator
        ((bare ''c'' 0 60 ''T'')\<lparr>iframe := Some ''http://e'', viewers := Some 5\<rparr>) =
       ''embed=http://e'' @ em_dash_separator @ ''viewers=5''
   \<and> ''embed=http://e'' @ desc_separator @ ''viewers=5'' \<noteq>
       ''embed=http://e'' @ em_dash_separator @ ''viewers=5''"
  by (simp add: programme_children_def desc_parts_def spec_desc_text_def present_url_def
      truthy_def bare_def str_int_def str_nat.simps desc_separator_def em_dash_separator_def)


section \<open>Time formatting: ranges, padding and the rendered stamp\<close>

















text \<open>
  An offset that is not a whole number of minutes is rendered rounded down: 44 minutes
  30 seconds west of UTC gives \<open>-0045\<close>.
\<close>

lemma offset_rounds_down_example:
  "xmltv_time 0 (fixed_zone (- 2670)) = Inr ''19691231231530 -0045''"
  by code_simp

section \<open>The cleaner on the store: what it writes, and that it computes the same list\<close>

lemma sweep_refs_frame:
  "sweep_refs s h cur merged plist = (h', m', c') \<Longrightarrow> n \<le> length h \<Longrightarrow>
   (\<forall>c. cur = Some c \<longrightarrow> n \<le> c) \<Longrightarrow>
   take n h' = take n h \<and> length h \<le> length h'"
proof (induction plist arbitrary: h cur merged)
  case Nil
  then show ?case by simp
next
  case (Cons p plist)
  let ?hc = "h @ [h ! p]"
  have copy: "take n ?hc = take n h" "length h \<le> length ?hc" "n \<le> length ?hc"
    using Cons.prems(2) by simp_all
  show ?case
  proof (cases cur)
    case None
    then have run: "sweep_refs s ?hc (Some (length h)) merged plist = (h', m', c')"
      using Cons.prems(1) by (simp add: copy_obj_def)
    from Cons.IH [OF run copy(3)] Cons.prems(2) copy show ?thesis by simp
  next
    case (Some c)
    then have nc: "n \<le> c" using Cons.prems(3) by simp
    let ?h1 = "h[c := (h ! c)\<lparr>stop := start (h ! p)\<rparr>]"
    let ?h2 = "h[c := (h ! c)\<lparr>stop := max (stop (h ! c)) (stop (h ! p))\<rparr>]"
    let ?h3 = "?h2[c := (?h2 ! c)\<lparr>title := title (?h2 ! c) @ '' / '' @ title (?h2 ! p)\<rparr>]"
    consider
        (fresh) mm where "sweep_refs s ?hc (Some (length h)) mm plist = (h', m', c')"
      | (trim) "sweep_refs s (?h1 @ [?h1 ! p]) (Some (length ?h1)) (merged @ [c]) plist = (h', m', c')"
      | (merge) "sweep_refs s ?h3 (Some c) merged plist = (h', m', c')"
      using Cons.prems(1) Some by (auto simp: copy_obj_def split: if_splits)
    then show ?thesis
    proof cases
      case fresh
      from Cons.IH [OF fresh copy(3)] Cons.prems(2) copy show ?thesis by simp
    next
      case trim
      have "take n (?h1 @ [?h1 ! p]) = take n h" "n \<le> length (?h1 @ [?h1 ! p])"
        using Cons.prems(2) nc by simp_all
      with Cons.IH [OF trim] Cons.prems(2) show ?thesis by simp
    next
      case merge
      have "take n ?h3 = take n h" "n \<le> length ?h3"
        using Cons.prems(2) nc by simp_all
      with Cons.IH [OF merge] nc show ?thesis by simp
    qed
  qed
qed

lemma clean_channel_refs_frame:
  "n \<le> length h \<Longrightarrow>
   take n (fst (clean_channel_refs s h plist)) = take n h \<and>
   length h \<le> length (fst (clean_channel_refs s h plist))"
proof -
  assume n: "n \<le> length h"
  obtain h' m' c' where run:
    "sweep_refs s h None [] (sort_key (\<lambda>x. start (h ! x)) plist) = (h', m', c')"
    by (cases "sweep_refs s h None [] (sort_key (\<lambda>x. start (h ! x)) plist)") auto
  have "fst (clean_channel_refs s h plist) = h'"
    using run by (simp add: clean_channel_refs_def split: option.splits)
  then show ?thesis
    using sweep_refs_frame [OF run n] by simp
qed

lemma clean_groups_refs_frame:
  "n \<le> length h \<Longrightarrow>
   take n (fst (clean_groups_refs s h cleaned gs)) = take n h \<and>
   length h \<le> length (fst (clean_groups_refs s h cleaned gs))"
proof (induction gs arbitrary: h cleaned)
  case Nil
  then show ?case by simp
next
  case (Cons g gs)
  obtain chan plist where g: "g = (chan, plist)" by (cases g)
  let ?h1 = "fst (clean_channel_refs s h plist)"
  have one: "take n ?h1 = take n h" "length h \<le> length ?h1"
    using clean_channel_refs_frame [OF Cons.prems] by simp_all
  then have "n \<le> length ?h1" using Cons.prems by simp
  from Cons.IH [OF this, of "cleaned @ snd (clean_channel_refs s h plist)"] one
  show ?case
    by (simp add: g)
qed

lemma map_insort_key:
  "map f (insort_key (\<lambda>x. g (f x)) a xs) = insort_key g (f a) (map f xs)"
  by (induction xs) simp_all

lemma map_sort_key:
  "map f (sort_key (\<lambda>x. g (f x)) xs) = sort_key g (map f xs)"
  by (induction xs) (simp_all add: map_insort_key)

lemma insort_key_cong_on:
  "(\<And>x. x \<in> insert a (set xs) \<Longrightarrow> f x = g x) \<Longrightarrow> insort_key f a xs = insort_key g a xs"
  by (induction xs) auto

lemma sort_key_cong_on:
  "(\<And>x. x \<in> set xs \<Longrightarrow> f x = g x) \<Longrightarrow> sort_key f xs = sort_key g xs"
proof (induction xs)
  case Nil
  show ?case by simp
next
  case (Cons a xs)
  have "sort_key f xs = sort_key g xs" using Cons by simp
  moreover have "insort_key f a (sort_key g xs) = insort_key g a (sort_key g xs)"
    by (rule insort_key_cong_on) (use Cons.prems in auto)
  ultimately show ?case by simp
qed

lemma setdefault_append_refs_sim:
  "setdefault_append (map (\<lambda>(c, g). (c, map ((!) h) g)) acc) (h ! p) =
   map (\<lambda>(c, g). (c, map ((!) h) g)) (setdefault_append_refs h acc p)"
  by (induction h acc p rule: setdefault_append_refs.induct) simp_all

lemma group_by_chan_refs_sim:
  "group_by_chan (map ((!) h) ps) =
   map (\<lambda>(c, g). (c, map ((!) h) g)) (group_by_chan_refs h ps)"
proof (induction ps rule: rev_induct)
  case Nil
  show ?case by (simp add: group_by_chan_def group_by_chan_refs_def)
next
  case (snoc p ps)
  then show ?case
    by (simp add: group_by_chan_def group_by_chan_refs_def setdefault_append_refs_sim)
qed

lemma group_by_chan_refs_members:
  "(c, g) \<in> set (group_by_chan_refs h ps) \<Longrightarrow> set g \<subseteq> set ps"
proof (induction ps arbitrary: c g rule: rev_induct)
  case Nil
  then show ?case by (simp add: group_by_chan_refs_def)
next
  case (snoc p ps)
  have step: "\<And>acc c g. (c, g) \<in> set (setdefault_append_refs h acc p) \<Longrightarrow>
      (\<exists>g'. (c, g') \<in> set acc \<and> set g \<subseteq> insert p (set g')) \<or> g = [p]"
  proof -
    fix acc c g
    show "(c, g) \<in> set (setdefault_append_refs h acc p) \<Longrightarrow>
      (\<exists>g'. (c, g') \<in> set acc \<and> set g \<subseteq> insert p (set g')) \<or> g = [p]"
      by (induction h acc p rule: setdefault_append_refs.induct) (auto split: if_splits)
  qed
  have "(c, g) \<in> set (setdefault_append_refs h (group_by_chan_refs h ps) p)"
    using snoc.prems by (simp add: group_by_chan_refs_def)
  from step [OF this] snoc.IH show ?case by auto
qed

lemma map_nth_append_old:
  "\<forall>x \<in> set xs. x < length h \<Longrightarrow> map ((!) (h @ ys)) xs = map ((!) h) xs"
  by (simp add: nth_append)

lemma map_nth_update_other:
  "c \<notin> set xs \<Longrightarrow> map ((!) (h[c := v])) xs = map ((!) h) xs"
  by (induction xs) auto

lemma sweep_refs_sim:
  "sweep_refs s h cur merged plist = (h', m', c') \<Longrightarrow>
   \<forall>p \<in> set plist. p < n0 \<Longrightarrow> n0 \<le> length h \<Longrightarrow>
   \<forall>c. cur = Some c \<longrightarrow> n0 \<le> c \<and> c < length h \<Longrightarrow>
   \<forall>m \<in> set merged. m < length h \<and> cur \<noteq> Some m \<Longrightarrow>
   sweep s (map_option ((!) h) cur) (map ((!) h) merged) (map ((!) h) plist) =
     (map ((!) h') m', map_option ((!) h') c')
   \<and> (\<forall>m \<in> set m'. m < length h') \<and> (\<forall>c. c' = Some c \<longrightarrow> c < length h')"
proof (induction plist arbitrary: h cur merged)
  case Nil
  then show ?case by auto
next
  case (Cons p plist)
  have p: "p < n0" and pl: "\<forall>q \<in> set plist. q < n0"
    using Cons.prems(2) by auto
  have plh: "\<forall>q \<in> set plist. q < length h" and ph: "p < length h"
    using p pl Cons.prems(3) by auto
  have mh: "\<forall>m \<in> set merged. m < length h"
    using Cons.prems(5) by auto
  let ?hc = "h @ [h ! p]"
  have hc_new: "?hc ! length h = h ! p" by simp
  have hc_pl: "map ((!) ?hc) plist = map ((!) h) plist"
    by (rule map_nth_append_old [OF plh])
  have hc_m: "map ((!) ?hc) merged = map ((!) h) merged"
    by (rule map_nth_append_old [OF mh])
  have n0c: "n0 \<le> length ?hc" using Cons.prems(3) by simp
  have curc: "\<forall>c. Some (length h) = Some c \<longrightarrow> n0 \<le> c \<and> c < length ?hc"
    using Cons.prems(3) by simp
  show ?case
  proof (cases cur)
    case None
    have run: "sweep_refs s ?hc (Some (length h)) merged plist = (h', m', c')"
      using Cons.prems(1) None by (simp add: copy_obj_def)
    have mer: "\<forall>m \<in> set merged. m < length ?hc \<and> Some (length h) \<noteq> Some m"
      using mh by auto
    from Cons.IH [OF run pl n0c curc mer] show ?thesis
      by (simp add: None hc_pl hc_m)
  next
    case (Some c)
    have c: "n0 \<le> c" "c < length h" using Cons.prems(4) Some by auto
    have cm: "c \<notin> set merged" using Cons.prems(5) Some by auto
    have cp: "c \<noteq> p" "c \<notin> set plist" using c p pl by auto
    have hc_c: "?hc ! c = h ! c" using c by (simp add: nth_append)
    have mer_keep: "\<forall>m \<in> set (merged @ [c]). m < length ?hc \<and> Some (length h) \<noteq> Some m"
      using mh c by auto
    have mer_drop: "\<forall>m \<in> set merged. m < length ?hc \<and> Some (length h) \<noteq> Some m"
      using mh by auto
    show ?thesis
    proof (cases "start (h ! p) < stop (h ! c)")
      case False
      have run: "sweep_refs s ?hc (Some (length h)) (merged @ [c]) plist = (h', m', c')"
        using Cons.prems(1) Some False by (simp add: copy_obj_def)
      from Cons.IH [OF run pl n0c curc mer_keep] show ?thesis
        using False by (simp add: Some hc_pl hc_m hc_c)
    next
      case ov: True
      show ?thesis
      proof (cases "s = ''trim''")
        case tr: True
        show ?thesis
        proof (cases "start (h ! p) \<le> start (h ! c)")
          case True
          have run: "sweep_refs s ?hc (Some (length h)) merged plist = (h', m', c')"
            using Cons.prems(1) Some ov tr True by (simp add: copy_obj_def)
          from Cons.IH [OF run pl n0c curc mer_drop] show ?thesis
            using ov tr True by (simp add: Some hc_pl hc_m)
        next
          case False
          let ?h1 = "h[c := (h ! c)\<lparr>stop := start (h ! p)\<rparr>]"
          let ?h1c = "?h1 @ [?h1 ! p]"
          have run: "sweep_refs s ?h1c (Some (length ?h1)) (merged @ [c]) plist = (h', m', c')"
            using Cons.prems(1) Some ov tr False by (simp add: copy_obj_def)
          have h1p: "?h1 ! p = h ! p" using cp by simp
          have h1c: "?h1 ! c = (h ! c)\<lparr>stop := start (h ! p)\<rparr>" using c by simp
          have a1: "n0 \<le> length ?h1c" using Cons.prems(3) by simp
          have a2: "\<forall>c'. Some (length ?h1) = Some c' \<longrightarrow> n0 \<le> c' \<and> c' < length ?h1c"
            using Cons.prems(3) by simp
          have a3: "\<forall>m \<in> set (merged @ [c]). m < length ?h1c \<and> Some (length ?h1) \<noteq> Some m"
            using mh c by auto
          have e1: "map ((!) ?h1c) plist = map ((!) h) plist"
            using plh cp by (simp add: map_nth_append_old map_nth_update_other)
          have e2: "map ((!) ?h1c) merged = map ((!) h) merged"
            using mh cm by (simp add: map_nth_append_old map_nth_update_other)
          have e3: "?h1c ! c = (h ! c)\<lparr>stop := start (h ! p)\<rparr>"
            using c by (simp add: nth_append)
          have e4: "?h1c ! length h = h ! p"
            using h1p by (simp add: nth_append)
          from Cons.IH [OF run pl a1 a2 a3]
          have "sweep s (Some (h ! p))
                  (map ((!) h) merged @ [(h ! c)\<lparr>stop := start (h ! p)\<rparr>])
                  (map ((!) h) plist) =
                (map ((!) h') m', map_option ((!) h') c')
              \<and> (\<forall>m \<in> set m'. m < length h') \<and> (\<forall>c. c' = Some c \<longrightarrow> c < length h')"
            unfolding option.map map_append list.map length_list_update e1 e2 e3 e4 .
          then show ?thesis
            using ov tr False by (simp add: Some)
        qed
      next
        case mg: False
        let ?h2 = "h[c := (h ! c)\<lparr>stop := max (stop (h ! c)) (stop (h ! p))\<rparr>]"
        let ?h3 = "?h2[c := (?h2 ! c)\<lparr>title := title (?h2 ! c) @ '' / '' @ title (?h2 ! p)\<rparr>]"
        have run: "sweep_refs s ?h3 (Some c) merged plist = (h', m', c')"
          using Cons.prems(1) Some ov mg by simp
        have a1: "n0 \<le> length ?h3" using Cons.prems(3) by simp
        have a2: "\<forall>c'. Some c = Some c' \<longrightarrow> n0 \<le> c' \<and> c' < length ?h3"
          using c by simp
        have a3: "\<forall>m \<in> set merged. m < length ?h3 \<and> Some c \<noteq> Some m"
          using mh cm by auto
        have e1: "map ((!) ?h3) plist = map ((!) h) plist"
          using cp by (simp add: map_nth_update_other)
        have e2: "map ((!) ?h3) merged = map ((!) h) merged"
          using cm by (simp add: map_nth_update_other)
        have e3: "?h3 ! c = (h ! c)\<lparr>stop := max (stop (h ! c)) (stop (h ! p)),
                     title := title (h ! c) @ '' / '' @ title (h ! p)\<rparr>"
          using c cp by simp
        from Cons.IH [OF run pl a1 a2 a3]
        have "sweep s (Some ((h ! c)\<lparr>stop := max (stop (h ! c)) (stop (h ! p)),
                     title := title (h ! c) @ '' / '' @ title (h ! p)\<rparr>))
                (map ((!) h) merged) (map ((!) h) plist) =
              (map ((!) h') m', map_option ((!) h') c')
            \<and> (\<forall>m \<in> set m'. m < length h') \<and> (\<forall>c. c' = Some c \<longrightarrow> c < length h')"
          unfolding option.map e1 e2 e3 .
        then show ?thesis
          using ov mg by (simp add: Some)
      qed
    qed
  qed
qed

lemma clean_channel_refs_sim:
  assumes "\<forall>p \<in> set plist. p < length h"
  shows "map ((!) (fst (clean_channel_refs s h plist))) (snd (clean_channel_refs s h plist)) =
           clean_channel s (map ((!) h) plist)
         \<and> (\<forall>m \<in> set (snd (clean_channel_refs s h plist)).
               m < length (fst (clean_channel_refs s h plist)))"
proof -
  let ?sorted = "sort_key (\<lambda>x. start (h ! x)) plist"
  obtain h' m' c' where run: "sweep_refs s h None [] ?sorted = (h', m', c')"
    by (cases "sweep_refs s h None [] ?sorted") auto
  have ins: "\<forall>p \<in> set ?sorted. p < length h"
    using assms by simp
  have sim: "sweep s None [] (map ((!) h) ?sorted) = (map ((!) h') m', map_option ((!) h') c')
      \<and> (\<forall>m \<in> set m'. m < length h') \<and> (\<forall>c. c' = Some c \<longrightarrow> c < length h')"
    using sweep_refs_sim [OF run ins] by simp
  have srt: "map ((!) h) ?sorted = sort_key start (map ((!) h) plist)"
    by (rule map_sort_key)
  show ?thesis
  proof (cases c')
    case None
    then show ?thesis
      using run sim by (simp add: clean_channel_refs_def clean_channel_def srt)
  next
    case (Some c)
    then show ?thesis
      using run sim by (simp add: clean_channel_refs_def clean_channel_def srt)
  qed
qed

lemma frame_nth:
  "take n h' = take n h \<Longrightarrow> a < n \<Longrightarrow> h' ! a = h ! a"
  by (metis nth_take)

lemma clean_groups_refs_sim:
  "\<forall>g \<in> set gs. \<forall>p \<in> set (snd g). p < n0 \<Longrightarrow> n0 \<le> length h \<Longrightarrow>
   \<forall>m \<in> set cleaned. m < length h \<Longrightarrow>
   map ((!) (fst (clean_groups_refs s h cleaned gs))) (snd (clean_groups_refs s h cleaned gs)) =
     map ((!) h) cleaned @ concat (map (\<lambda>g. clean_channel s (map ((!) h) (snd g))) gs)"
proof (induction gs arbitrary: h cleaned)
  case Nil
  show ?case by simp
next
  case (Cons g gs)
  obtain chan plist where g: "g = (chan, plist)" by (cases g)
  let ?h1 = "fst (clean_channel_refs s h plist)"
  let ?m1 = "snd (clean_channel_refs s h plist)"
  have pl: "\<forall>p \<in> set plist. p < length h"
    using Cons.prems(1,2) g by auto
  have one: "map ((!) ?h1) ?m1 = clean_channel s (map ((!) h) plist)"
      "\<forall>m \<in> set ?m1. m < length ?h1"
    using clean_channel_refs_sim [OF pl, of s] by simp_all
  have frame: "take (length h) ?h1 = take (length h) h" "length h \<le> length ?h1"
    using clean_channel_refs_frame [of "length h" h s plist] by simp_all
  have same: "\<And>a. a < length h \<Longrightarrow> ?h1 ! a = h ! a"
    using frame(1) by (rule frame_nth)
  have cl: "map ((!) ?h1) cleaned = map ((!) h) cleaned"
    using Cons.prems(3) same by simp
  have rest: "\<forall>g \<in> set gs. \<forall>p \<in> set (snd g). p < n0"
    using Cons.prems(1) by simp
  have n1: "n0 \<le> length ?h1" using Cons.prems(2) frame(2) by simp
  have c1: "\<forall>m \<in> set (cleaned @ ?m1). m < length ?h1"
    using Cons.prems(3) frame(2) one(2) by auto
  have grp: "map (\<lambda>g. clean_channel s (map ((!) ?h1) (snd g))) gs =
             map (\<lambda>g. clean_channel s (map ((!) h) (snd g))) gs"
  proof (rule map_cong [OF refl])
    fix g' assume "g' \<in> set gs"
    then have "\<forall>p \<in> set (snd g'). p < n0"
      using rest by blast
    then have "\<forall>p \<in> set (snd g'). p < length h"
      using Cons.prems(2) by force
    then have "map ((!) ?h1) (snd g') = map ((!) h) (snd g')"
      using same by simp
    then show "clean_channel s (map ((!) ?h1) (snd g')) = clean_channel s (map ((!) h) (snd g'))"
      by (rule arg_cong)
  qed
  have "map ((!) (fst (clean_groups_refs s ?h1 (cleaned @ ?m1) gs)))
          (snd (clean_groups_refs s ?h1 (cleaned @ ?m1) gs)) =
        map ((!) ?h1) (cleaned @ ?m1)
        @ concat (map (\<lambda>g. clean_channel s (map ((!) ?h1) (snd g))) gs)"
    by (rule Cons.IH [OF rest n1 c1])
  then show ?case
    by (simp add: g cl one(1) grp)
qed

lemma clean_overlaps_refs_refines:
  assumes "\<forall>p \<in> set programmes. p < length h"
  shows "map ((!) (fst (clean_overlaps_refs h programmes strategy)))
           (snd (clean_overlaps_refs h programmes strategy)) =
         clean_overlaps (map ((!) h) programmes) strategy"
proof -
  let ?gs = "group_by_chan_refs h programmes"
  let ?r = "clean_groups_refs strategy h [] ?gs"
  have ins: "\<forall>g \<in> set ?gs. \<forall>p \<in> set (snd g). p < length h"
  proof (intro ballI)
    fix g p assume "g \<in> set ?gs" and "p \<in> set (snd g)"
    then have "p \<in> set programmes"
      using group_by_chan_refs_members [of "fst g" "snd g" h programmes] by auto
    then show "p < length h" using assms by simp
  qed
  have "map ((!) (fst ?r)) (snd ?r) =
        concat (map (\<lambda>g. clean_channel strategy (map ((!) h) (snd g))) ?gs)"
    using clean_groups_refs_sim [OF ins, of h "[]" strategy] by simp
  also have "\<dots> = concat (map (\<lambda>(chan, plist). clean_channel strategy plist)
                       (group_by_chan (map ((!) h) programmes)))"
    by (simp add: group_by_chan_refs_sim comp_def case_prod_beta)
  finally have cleaned: "map ((!) (fst ?r)) (snd ?r) =
      concat (map (\<lambda>(chan, plist). clean_channel strategy plist)
                (group_by_chan (map ((!) h) programmes)))" .
  have "map ((!) (fst ?r)) (sort_key (\<lambda>x. sort_field (fst ?r ! x)) (snd ?r)) =
        sort_key sort_field (map ((!) (fst ?r)) (snd ?r))"
    by (rule map_sort_key)
  then show ?thesis
    by (simp add: clean_overlaps_refs_def Let_def clean_overlaps_def cleaned)
qed

text \<open>
  Claim C10.  For every store, every list of references into it (repetitions allowed)
  and every strategy, the store after \<open>clean_overlaps\<close> holds, at every address that
  existed before the call, exactly the object it held before: the call only adds
  objects (the copies) and writes only to objects it added.  In particular every
  programme dict of the input list is unchanged.
\<close>

theorem clean_overlaps_leaves_input_unchanged:
  "take (length h) (fst (clean_overlaps_refs h programmes strategy)) = h"
  using clean_groups_refs_frame
    [where n = "length h" and h = h and s = strategy and cleaned = "[]"
       and gs = "group_by_chan_refs h programmes"]
  by (simp add: clean_overlaps_refs_def Let_def)

section \<open>The cleaner: properties of the output\<close>

lemmas clean_eval = clean_overlaps_def group_by_chan_def clean_channel_def sort_field_def

lemma mset_eq_by_channel:
  assumes "\<And>c. mset (filter (\<lambda>x. channel x = c) xs) = mset (filter (\<lambda>x. channel x = c) ys)"
  shows "mset xs = mset ys"
proof (rule multiset_eqI)
  fix x
  have "count (mset xs) x = count (mset (filter (\<lambda>y. channel y = channel x) xs)) x"
    by simp
  also have "\<dots> = count (mset (filter (\<lambda>y. channel y = channel x) ys)) x"
    by (simp only: assms)
  also have "\<dots> = count (mset ys) x"
    by simp
  finally show "count (mset xs) x = count (mset ys) x" .
qed

lemma clean_overlaps_sorted: "sorted (map sort_field (clean_overlaps ps s))"
  unfolding clean_overlaps_def by (rule sorted_sort_key)

lemma slice_disjoint:
  assumes "no_overlap_input ps"
  shows "filter (\<lambda>x. channel x = c) (clean_overlaps ps s) =
         sort_key start (filter (\<lambda>x. channel x = c) ps)"
proof (cases "c \<in> channel ` set ps")
  case True
  then have "adjacent_disjoint (sort_key start (filter (\<lambda>x. channel x = c) ps))"
    using assms unfolding no_overlap_input_def by auto
  then show ?thesis
    by (simp only: channel_slice clean_channel_disjoint)
next
  case False
  then have "filter (\<lambda>x. channel x = c) ps = []"
    by (auto simp: filter_empty_conv)
  then show ?thesis
    by (simp only: channel_slice clean_channel_Nil sort_key_simps)
qed

text \<open>
  Claim C1.  For every input list and every strategy, the cleaner's output is sorted by
  (channel, start), and within each channel it is non-overlapping: of any two output
  programmes \<open>a\<close> before \<open>b\<close> of channel \<open>c\<close> (adjacent or not), \<open>a\<close> starts no
  later than \<open>b\<close> and \<open>a\<close> stops no later than \<open>b\<close> starts.
\<close>

theorem clean_overlaps_non_overlapping:
  "sorted (map sort_field (clean_overlaps programmes strategy)) \<and>
   sorted_wrt (\<lambda>a b. start a \<le> start b \<and> stop a \<le> start b)
     (filter (\<lambda>x. channel x = c) (clean_overlaps programmes strategy))"
  by (simp only: channel_slice clean_channel_separated clean_overlaps_sorted simp_thms)

text \<open>
  Claim C2, as amended.  Under \<open>trim\<close>, when the next programme \<open>p\<close> overlaps the current
  one and \<open>p\<close> starts no later than it, the current programme is dropped without being
  emitted and \<open>p\<close> becomes current.  Under any other strategy (\<open>merge\<close>) the containment
  test is not made: the current programme absorbs \<open>p\<close>.  For A=[10,100), B=[10,50) on one
  channel, \<open>trim\<close> returns exactly B and \<open>merge\<close> returns exactly one programme [10,100)
  titled \<open>A / B\<close> with A's other fields.
\<close>

theorem trim_containment_supersedes:
  assumes "start p < stop cur" and "start p \<le> start cur"
  shows "sweep ''trim'' (Some cur) merged (p # plist) = sweep ''trim'' (Some p) merged plist
   \<and> (strategy \<noteq> ''trim'' \<longrightarrow> sweep strategy (Some cur) merged (p # plist) =
        sweep strategy (Some (cur\<lparr>stop := max (stop cur) (stop p),
                           title := title cur @ '' / '' @ title p\<rparr>)) merged plist)
   \<and> clean_overlaps [a\<lparr>channel := c, start := 10, stop := 100, title := ''A''\<rparr>,
                      b\<lparr>channel := c, start := 10, stop := 50, title := ''B''\<rparr>] ''trim''
       = [b\<lparr>channel := c, start := 10, stop := 50, title := ''B''\<rparr>]
   \<and> clean_overlaps [a\<lparr>channel := c, start := 10, stop := 100, title := ''A''\<rparr>,
                      b\<lparr>channel := c, start := 10, stop := 50, title := ''B''\<rparr>] ''merge''
       = [a\<lparr>channel := c, start := 10, stop := 100, title := ''A / B''\<rparr>]"
  using assms by (simp add: clean_eval)

theorem trim_containment_supersedes_witness:
  "start (bare ''ch'' 10 50 ''B'') < stop (bare ''ch'' 10 100 ''A'')
   \<and> start (bare ''ch'' 10 50 ''B'') \<le> start (bare ''ch'' 10 100 ''A'')
   \<and> sweep ''trim'' (Some (bare ''ch'' 10 100 ''A'')) [] [bare ''ch'' 10 50 ''B'']
       = ([], Some (bare ''ch'' 10 50 ''B''))
   \<and> sweep ''merge'' (Some (bare ''ch'' 10 100 ''A'')) [] [bare ''ch'' 10 50 ''B'']
       = ([], Some (bare ''ch'' 10 100 ''A / B''))"
  using trim_containment_supersedes
    [where p = "bare ''ch'' 10 50 ''B''" and cur = "bare ''ch'' 10 100 ''A''"
       and strategy = "''merge''" and merged = "[]" and plist = "[]"]
  by (simp add: bare_def)

text \<open>
  The claim as stated fails for \<open>merge\<close>: on A=[10,100), B=[10,50) the output is not the
  single programme B but A extended by B's title.
\<close>

theorem merge_containment_counterexample:
  "clean_overlaps [bare ''ch'' 10 100 ''A'', bare ''ch'' 10 50 ''B''] ''merge''
     = [bare ''ch'' 10 100 ''A / B'']
   \<and> clean_overlaps [bare ''ch'' 10 100 ''A'', bare ''ch'' 10 50 ''B''] ''merge''
     \<noteq> [bare ''ch'' 10 50 ''B'']"
  by (simp add: clean_eval bare_def)

text \<open>
  Claim C4.  For every input list and every strategy, the channels of the output are
  exactly the channels of the input: every channel with at least one input programme
  contributes at least one output programme (and no channel is invented).
\<close>

theorem clean_overlaps_keeps_channels:
  "channel ` set (clean_overlaps programmes strategy) = channel ` set programmes"
proof -
  have "\<And>c xs. c \<in> channel ` set xs \<longleftrightarrow> filter (\<lambda>x. channel x = c) xs \<noteq> []"
    by (auto simp: filter_empty_conv)
  moreover have "\<And>c. filter (\<lambda>x. channel x = c) (clean_overlaps programmes strategy) \<noteq> []
      \<longleftrightarrow> filter (\<lambda>x. channel x = c) programmes \<noteq> []"
    unfolding channel_slice using clean_channel_nonempty clean_channel_Nil by metis
  ultimately show ?thesis by blast
qed

lemma apart_sym: "apart a b \<Longrightarrow> apart b a"
  by (auto simp: apart_def ranges_overlap_def max.commute min.commute)

lemma ranges_disjoint_sorted_wrt: "ranges_disjoint ps = sorted_wrt apart ps"
  by (induction ps) (auto simp: apart_def)

lemma sorted_wrt_apart_insort:
  "sorted_wrt apart (insort_key f a xs) \<longleftrightarrow> (\<forall>x \<in> set xs. apart a x) \<and> sorted_wrt apart xs"
proof (induction xs)
  case Nil
  show ?case by simp
next
  case (Cons x xs)
  show ?case
  proof (cases "f a \<le> f x")
    case True
    then show ?thesis by simp
  next
    case False
    then show ?thesis
      using Cons.IH apart_sym [of a x] apart_sym [of x a] by (auto simp: set_insort_key)
  qed
qed

lemma sorted_wrt_apart_sort: "sorted_wrt apart (sort_key f xs) \<longleftrightarrow> sorted_wrt apart xs"
  by (induction xs) (simp_all add: sorted_wrt_apart_insort)

lemma apart_adjacent:
  assumes "apart a b" and "channel a = channel b" and "start a \<le> start b"
    and "start b < stop b"
  shows "stop a \<le> start b"
proof (rule ccontr)
  assume "\<not> stop a \<le> start b"
  then have "start b < stop a" by simp
  then have "max (start a) (start b) < min (stop a) (stop b)"
    using assms(3,4) by simp
  then show False
    using assms(1,2) by (simp add: apart_def ranges_overlap_def)
qed

lemma apart_sorted_adjacent:
  "sorted_wrt apart xs \<Longrightarrow> sorted (map start xs) \<Longrightarrow>
   \<forall>x \<in> set xs. channel x = c \<and> start x < stop x \<Longrightarrow> adjacent_disjoint xs"
proof (induction xs)
  case Nil
  show ?case by simp
next
  case (Cons a xs)
  have tl: "sorted_wrt apart xs" "sorted (map start xs)"
    "\<forall>x \<in> set xs. channel x = c \<and> start x < stop x"
    using Cons.prems by simp_all
  have hd: "\<forall>x \<in> set xs. apart a x" "\<forall>x \<in> set xs. start a \<le> start x" "channel a = c"
    using Cons.prems by simp_all
  have rest: "adjacent_disjoint xs"
    by (rule Cons.IH [OF tl])
  show ?case
  proof (cases xs)
    case Nil
    then show ?thesis by simp
  next
    case (Cons b ps)
    then have b: "b \<in> set xs" by simp
    have "stop a \<le> start b"
    proof (rule apart_adjacent)
      show "apart a b" using hd(1) b by blast
      show "channel a = channel b" using hd(3) tl(3) b by simp
      show "start a \<le> start b" using hd(2) b by blast
      show "start b < stop b" using tl(3) b by blast
    qed
    then show ?thesis
      using rest Cons by simp
  qed
qed

lemma ranges_disjoint_no_overlap_input:
  assumes "\<forall>p \<in> set programmes. start p < stop p" and "ranges_disjoint programmes"
  shows "no_overlap_input programmes"
  unfolding no_overlap_input_def
proof
  fix c
  let ?g = "filter (\<lambda>x. channel x = c) programmes"
  have "sorted_wrt apart ?g"
    using assms(2) by (simp add: ranges_disjoint_sorted_wrt sorted_wrt_filter)
  then have "sorted_wrt apart (sort_key start ?g)"
    by (simp only: sorted_wrt_apart_sort)
  moreover have "sorted (map start (sort_key start ?g))"
    by (rule sorted_sort_key)
  moreover have "\<forall>x \<in> set (sort_key start ?g). channel x = c \<and> start x < stop x"
    using assms(1) by simp
  ultimately show "adjacent_disjoint (sort_key start ?g)"
    by (rule apart_sorted_adjacent)
qed

lemma clean_overlaps_no_overlap_input:
  assumes "no_overlap_input programmes"
  shows "clean_overlaps programmes strategy = sort_key sort_field programmes"
proof (rule properties_for_sort_key [symmetric])
  show "mset (clean_overlaps programmes strategy) = mset programmes"
    by (rule mset_eq_by_channel) (simp only: slice_disjoint [OF assms] mset_sort)
next
  show "sorted (map sort_field (clean_overlaps programmes strategy))"
    by (rule clean_overlaps_sorted)
next
  fix k
  have split: "\<And>xs. filter (\<lambda>x. sort_field k = sort_field x) xs =
      filter (\<lambda>x. start x = start k) (filter (\<lambda>x. channel x = channel k) xs)"
    by (auto simp: sort_field_def intro: filter_cong)
  show "filter (\<lambda>x. sort_field k = sort_field x) (clean_overlaps programmes strategy) =
        filter (\<lambda>x. sort_field k = sort_field x) programmes"
    by (simp only: split slice_disjoint [OF assms] sort_key_stable)
qed

text \<open>
  Claim C5, as amended.  For every input list in which, within each channel, no programme
  starts before the stop of the programme preceding it in that channel's start order
  (equal starts in input order), the cleaner returns, under every strategy, exactly the
  input programmes with all fields unchanged, stably sorted by (channel, start).  Every
  input whose programmes all have start < stop and, per channel, pairwise disjoint
  \<open>[start, stop)\<close> ranges is such a list, so it too is returned unchanged apart from
  that sorting.
\<close>

theorem clean_overlaps_disjoint_unchanged:
  "(no_overlap_input programmes \<longrightarrow>
      clean_overlaps programmes strategy = sort_key sort_field programmes)
   \<and> ((\<forall>p \<in> set programmes. start p < stop p) \<and> ranges_disjoint programmes \<longrightarrow>
      no_overlap_input programmes
      \<and> clean_overlaps programmes strategy = sort_key sort_field programmes)"
  using clean_overlaps_no_overlap_input ranges_disjoint_no_overlap_input by blast

theorem clean_overlaps_disjoint_unchanged_witness:
  "no_overlap_input [bare ''b'' 20 30 ''B'', bare ''a'' 5 9 ''Z'', bare ''b'' 0 20 ''A'']
   \<and> start (bare ''b'' 20 30 ''B'') < stop (bare ''b'' 20 30 ''B'')
   \<and> start (bare ''a'' 5 9 ''Z'') < stop (bare ''a'' 5 9 ''Z'')
   \<and> start (bare ''b'' 0 20 ''A'') < stop (bare ''b'' 0 20 ''A'')
   \<and> ranges_disjoint [bare ''b'' 20 30 ''B'', bare ''a'' 5 9 ''Z'', bare ''b'' 0 20 ''A'']
   \<and> clean_overlaps [bare ''b'' 20 30 ''B'', bare ''a'' 5 9 ''Z'', bare ''b'' 0 20 ''A''] ''trim''
      = [bare ''a'' 5 9 ''Z'', bare ''b'' 0 20 ''A'', bare ''b'' 20 30 ''B'']"
proof -
  have h1: "no_overlap_input [bare ''b'' 20 30 ''B'', bare ''a'' 5 9 ''Z'', bare ''b'' 0 20 ''A'']"
    by (simp add: no_overlap_input_def bare_def)
  have h2: "\<forall>p \<in> set [bare ''b'' 20 30 ''B'', bare ''a'' 5 9 ''Z'', bare ''b'' 0 20 ''A''].
         start p < stop p"
    by (simp add: bare_def)
  have h3: "ranges_disjoint [bare ''b'' 20 30 ''B'', bare ''a'' 5 9 ''Z'', bare ''b'' 0 20 ''A'']"
    by (simp add: bare_def ranges_overlap_def)
  show ?thesis
    using h1 h2 h3
      clean_overlaps_disjoint_unchanged
        [of "[bare ''b'' 20 30 ''B'', bare ''a'' 5 9 ''Z'', bare ''b'' 0 20 ''A'']" "''trim''"]
    by (simp add: bare_def sort_field_def)
qed

text \<open>
  The claim as stated, with overlap read as intersecting \<open>[start, stop)\<close> ranges, fails on
  a zero-duration programme: A=[0,100) and B=[50,50) have disjoint ranges (B's is empty),
  yet \<open>trim\<close> shortens A to [0,50) and \<open>merge\<close> retitles A.
\<close>

theorem zero_duration_counterexample:
  "ranges_disjoint [bare ''ch'' 0 100 ''A'', bare ''ch'' 50 50 ''B'']
   \<and> clean_overlaps [bare ''ch'' 0 100 ''A'', bare ''ch'' 50 50 ''B''] ''trim''
      = [bare ''ch'' 0 50 ''A'', bare ''ch'' 50 50 ''B'']
   \<and> clean_overlaps [bare ''ch'' 0 100 ''A'', bare ''ch'' 50 50 ''B''] ''trim''
      \<noteq> sort_key sort_field [bare ''ch'' 0 100 ''A'', bare ''ch'' 50 50 ''B'']
   \<and> clean_overlaps [bare ''ch'' 0 100 ''A'', bare ''ch'' 50 50 ''B''] ''merge''
      = [bare ''ch'' 0 100 ''A / B'']"
  by (simp add: clean_eval bare_def ranges_overlap_def)

text \<open>
  Claim C6.  For A=[0,50), B=[30,80), C=[70,90) on one channel, titled \<open>A\<close>, \<open>B\<close>, \<open>C\<close>,
  cleaning with \<open>merge\<close> returns exactly one programme, with start 0, stop 90 and title
  \<open>A / B / C\<close> (and A's remaining fields), whatever the other fields of the three are and
  whether the input lists them in this order or reversed.
\<close>

theorem merge_accumulation:
  "clean_overlaps
     [a\<lparr>channel := c, start := 0, stop := 50, title := ''A''\<rparr>,
      b\<lparr>channel := c, start := 30, stop := 80, title := ''B''\<rparr>,
      d\<lparr>channel := c, start := 70, stop := 90, title := ''C''\<rparr>] ''merge'' =
     [a\<lparr>channel := c, start := 0, stop := 90, title := ''A / B / C''\<rparr>]
   \<and> clean_overlaps
     [d\<lparr>channel := c, start := 70, stop := 90, title := ''C''\<rparr>,
      b\<lparr>channel := c, start := 30, stop := 80, title := ''B''\<rparr>,
      a\<lparr>channel := c, start := 0, stop := 50, title := ''A''\<rparr>] ''merge'' =
     [a\<lparr>channel := c, start := 0, stop := 90, title := ''A / B / C''\<rparr>]"
  by (simp add: clean_eval)


end
